theory Spec2Isabelle
  imports Main "HOL-Library.Multiset"
begin

section \<open>ethdistance: the transaction tree and the breadth-first search\<close>

text \<open>
  An embedding of \<^verbatim>\<open>ethdistance.py\<close>. Wallet addresses and transaction hashes are
  Python strings, modelled as \<^typ>\<open>string\<close>; depths and the depth bound are Python
  integers, modelled as \<^typ>\<open>int\<close>. The Etherscan client is a parameter of the
  search: a function from a wallet address to the list of transactions that
  \<^verbatim>\<open>get_all_transactions(wallet, 1)\<close> yields for it. The number of stack frames
  that the interpreter has free for the recursion of \<^verbatim>\<open>path_to_root\<close> is a
  parameter as well. The API key and the one-second pause before each request do
  not influence the result and are left out.
\<close>


subsection \<open>Strings\<close>

text \<open>
  \<^verbatim>\<open>str.lower()\<close> on the ASCII range, where addresses live: the letters
  \<^verbatim>\<open>A\<close> to \<^verbatim>\<open>Z\<close> (codes 65 to 90) move up by 32, every other
  character stays.
\<close>

definition lower_char :: "char \<Rightarrow> char" where
  "lower_char c =
     (let n = (of_char c :: nat)
      in if 65 \<le> n \<and> n \<le> 90 then char_of (n + 32) else c)"

definition lower :: "string \<Rightarrow> string" where
  "lower s = map lower_char s"

subsection \<open>The transaction tree\<close>

text \<open>
  The fields of \<^verbatim>\<open>class transaction_tree\<close>. \<^verbatim>\<open>parent_info\<close> is a dict from a
  wallet to the pair of its parent and the hash of the transaction that links them.
\<close>

record transaction_tree =
  root_wallet :: string
  parent_info :: "string \<rightharpoonup> string \<times> string"
  observed_wallets :: "string set"
  leaves :: "string set"

datatype error = AssertionError | KeyError | RecursionError

text \<open>\<^verbatim>\<open>transaction_tree.__init__(root_wallet)\<close>\<close>

definition tree_init :: "string \<Rightarrow> transaction_tree" where
  "tree_init root =
     \<lparr>root_wallet = root,
      parent_info = Map.empty,
      observed_wallets = {root},
      leaves = {root}\<rparr>"

text \<open>
  \<^verbatim>\<open>expand(self, parent_wallet, child_wallet, tx_hash)\<close>. The method mutates the
  tree in place, so the model returns the tree as the call leaves it, together
  with the exception raised, if any. The two assertions come first; the four
  updates follow in the order of the source.
\<close>

definition expand ::
  "transaction_tree \<Rightarrow> string \<Rightarrow> string \<Rightarrow> string \<Rightarrow> error option \<times> transaction_tree"
where
  "expand self parent_wallet child_wallet tx_hash =
     (if parent_wallet \<notin> observed_wallets self then (Some AssertionError, self)
      else if child_wallet \<in> observed_wallets self then (Some AssertionError, self)
      else
        let s1 = self\<lparr>parent_info := (parent_info self)(child_wallet \<mapsto> (parent_wallet, tx_hash))\<rparr>;
            s2 = s1\<lparr>observed_wallets := insert child_wallet (observed_wallets s1)\<rparr>;
            s3 = s2\<lparr>leaves := leaves s2 - {parent_wallet}\<rparr>;
            s4 = s3\<lparr>leaves := insert child_wallet (leaves s3)\<rparr>
        in (None, s4))"

text \<open>
  \<^verbatim>\<open>path_to_root(self, wallet)\<close>. Every call of the recursion takes one frame of
  the interpreter's stack, and a call made when no frame is free raises
  \<^verbatim>\<open>RecursionError\<close>. The first argument is the number of frames that are free
  when the method is called: the interpreter's recursion limit (1000 unless
  changed) less the frames in use. It is a parameter, since the source does not
  fix it. The result is the exception or the pair of lists, and the tree as the
  call leaves it. A wallet missing from the dict raises \<^verbatim>\<open>KeyError\<close> at
  \<^verbatim>\<open>self.parent_info[wallet]\<close>; an exception of the inner call passes through
  the outer one.
\<close>

fun path_to_root ::
  "nat \<Rightarrow> transaction_tree \<Rightarrow> string \<Rightarrow> (error + string list \<times> string list) \<times> transaction_tree"
where
  "path_to_root 0 self wallet = (Inl RecursionError, self)"
| "path_to_root (Suc frames) self wallet =
     (if wallet \<notin> observed_wallets self then (Inl AssertionError, self)
      else if wallet = root_wallet self then (Inr ([root_wallet self], []), self)
      else
        case parent_info self wallet of
          None \<Rightarrow> (Inl KeyError, self)
        | Some (parent, tx) \<Rightarrow>
            (case path_to_root frames self parent of
               (Inl e, self') \<Rightarrow> (Inl e, self')
             | (Inr (partial_path_to_root, partial_txs_to_root), self') \<Rightarrow>
                 (Inr (wallet # partial_path_to_root, tx # partial_txs_to_root), self')))"

text \<open>
  The trees that the class can build: the constructor, then any number of
  \<^verbatim>\<open>expand\<close> calls that return without raising.
\<close>

inductive reachable :: "transaction_tree \<Rightarrow> bool" where
  init: "reachable (tree_init root)"
| step: "reachable t \<Longrightarrow> expand t parent child tx = (None, t') \<Longrightarrow> reachable t'"

subsection \<open>The search\<close>

text \<open>The three attributes of an Etherscan transaction object that the search reads.\<close>

record etherscan_tx =
  from_address :: string
  to_address :: string
  txhash :: string

definition neighbor_address :: "etherscan_tx \<Rightarrow> string \<Rightarrow> string" where
  "neighbor_address etherscan_tx wallet =
     (if lower (from_address etherscan_tx) = lower wallet then to_address etherscan_tx
      else from_address etherscan_tx)"

text \<open>
  What \<^verbatim>\<open>shortest_path\<close> returns: the pair of lists from \<^verbatim>\<open>path_to_root\<close>, or
  \<^verbatim>\<open>False\<close>.
\<close>

datatype search_result = Success "string list" "string list" | NotFound

text \<open>How a run ends: it returns, or it raises.\<close>

datatype outcome = Returned search_result | Raised error

text \<open>
  The \<^verbatim>\<open>for tx in client.get_all_transactions(wallet, 1)\<close> loop over the batch of
  one dequeued wallet. It either leaves the function (\<open>Left\<close>, by
  \<^verbatim>\<open>return\<close> or by an exception) or runs to the end of the batch
  (\<open>Completed\<close>); both carry the tree, the second also the queue.
\<close>

datatype for_result =
  Left outcome transaction_tree
| Completed transaction_tree "(string \<times> int) list"

fun for_txs ::
  "nat \<Rightarrow> string \<Rightarrow> int \<Rightarrow> string \<Rightarrow> int \<Rightarrow> etherscan_tx list \<Rightarrow> transaction_tree
   \<Rightarrow> (string \<times> int) list \<Rightarrow> for_result"
where
  "for_txs frames target_wallet max_depth wallet depth [] tree queue = Completed tree queue"
| "for_txs frames target_wallet max_depth wallet depth (tx # txs) tree queue =
     (let new_wallet = lower (neighbor_address tx wallet) in
      case (if new_wallet \<notin> observed_wallets tree \<and> new_wallet \<noteq> ''''
            then expand tree wallet new_wallet (txhash tx) else (None, tree)) of
        (Some e, tree1) \<Rightarrow> Left (Raised e) tree1
      | (None, tree1) \<Rightarrow>
          if new_wallet = target_wallet then
            (case path_to_root frames tree1 new_wallet of
               (Inl e, tree2) \<Rightarrow> Left (Raised e) tree2
             | (Inr (ws, hs), tree2) \<Rightarrow> Left (Returned (Success ws hs)) tree2)
          else
            for_txs frames target_wallet max_depth wallet depth txs tree1
              (if depth < max_depth then queue @ [(new_wallet, depth + 1)] else queue))"

text \<open>
  The \<^verbatim>\<open>while len(queue) >= 1\<close> loop. A batch that runs to its end appends only
  entries one level deeper than the dequeued one, and none once the depth bound
  is reached; so the multiset of the distances \<open>max_depth - depth\<close> in the queue
  decreases with every iteration, and the loop is total.
\<close>

definition queue_weight :: "int \<Rightarrow> (string \<times> int) list \<Rightarrow> nat multiset" where
  "queue_weight md queue = mset (map (\<lambda>e. nat (md - snd e)) queue)"

function bfs ::
  "nat \<Rightarrow> (string \<Rightarrow> etherscan_tx list) \<Rightarrow> string \<Rightarrow> int \<Rightarrow> transaction_tree
   \<Rightarrow> (string \<times> int) list \<Rightarrow> outcome \<times> transaction_tree"
where
  "bfs frames client target_wallet max_depth tree [] = (Returned NotFound, tree)"
| "bfs frames client target_wallet max_depth tree ((wallet, depth) # queue) =
     (case for_txs frames target_wallet max_depth wallet depth (client wallet) tree queue of
        Left out tree' \<Rightarrow> (out, tree')
      | Completed tree' queue' \<Rightarrow> bfs frames client target_wallet max_depth tree' queue')"
  by pat_completeness auto
termination
proof (relation "inv_image (mult less_than)
                   (\<lambda>(frames, client, target, md, tree, queue). queue_weight md queue)")
  show "wf (inv_image (mult less_than)
              (\<lambda>(frames, client, target, md, tree, queue). queue_weight md queue))"
    by (simp add: wf_mult)
next
  fix frames :: nat and client :: "string \<Rightarrow> etherscan_tx list"
    and target_wallet max_depth tree wallet depth queue tree' queue'
  assume c: "for_txs frames target_wallet max_depth wallet depth (client wallet) tree queue
             = Completed tree' queue'"
  have grow: "\<exists>new. q' = q @ new \<and> (new \<noteq> [] \<longrightarrow> depth < max_depth)
                \<and> (\<forall>e \<in> set new. snd e = depth + 1)"
    if "for_txs frames target_wallet max_depth wallet depth txs t q = Completed t' q'"
    for txs t q t' q'
    using that
  proof (induction txs arbitrary: t q)
    case Nil
    then show ?case by simp
  next
    case (Cons tx txs)
    then show ?case
      by (fastforce simp: Let_def split: if_splits prod.splits option.splits sum.splits)
  qed
  from grow[OF c] obtain new where q: "queue' = queue @ new"
    and d: "new \<noteq> [] \<longrightarrow> depth < max_depth" and e: "\<forall>e \<in> set new. snd e = depth + 1"
    by blast
  have "(queue_weight max_depth queue + queue_weight max_depth new,
         queue_weight max_depth queue + {#nat (max_depth - depth)#}) \<in> mult less_than"
  proof (rule one_step_implies_mult)
    show "{#nat (max_depth - depth)#} \<noteq> {#}" by simp
    show "\<forall>k\<in>#queue_weight max_depth new. \<exists>j\<in>#{#nat (max_depth - depth)#}. (k, j) \<in> less_than"
      using d e by (auto simp: queue_weight_def)
  qed
  then show "((frames, client, target_wallet, max_depth, tree', queue'),
              (frames, client, target_wallet, max_depth, tree, (wallet, depth) # queue))
             \<in> inv_image (mult less_than)
                 (\<lambda>(frames, client, target, md, tree, queue). queue_weight md queue)"
    by (simp add: q queue_weight_def)
qed

text \<open>
  \<^verbatim>\<open>shortest_path(source_wallet, target_wallet, API_key, max_depth, free_API_key)\<close>
  with the client in place of the key, and with the number of frames that are
  free where it calls \<^verbatim>\<open>path_to_root\<close>. \<open>shortest_path_run\<close> also gives the
  tree as the run leaves it, which the source keeps in a local variable;
  \<open>shortest_path\<close> is what the caller sees.
\<close>

definition shortest_path_run ::
  "nat \<Rightarrow> (string \<Rightarrow> etherscan_tx list) \<Rightarrow> string \<Rightarrow> string \<Rightarrow> int
   \<Rightarrow> outcome \<times> transaction_tree"
where
  "shortest_path_run frames client source_wallet target_wallet max_depth =
     (let source_wallet = lower source_wallet;
          target_wallet = lower target_wallet;
          tree = tree_init source_wallet;
          queue = [(source_wallet, 0)]
      in bfs frames client target_wallet max_depth tree queue)"

definition shortest_path ::
  "nat \<Rightarrow> (string \<Rightarrow> etherscan_tx list) \<Rightarrow> string \<Rightarrow> string \<Rightarrow> int \<Rightarrow> outcome"
where
  "shortest_path frames client source_wallet target_wallet max_depth =
     fst (shortest_path_run frames client source_wallet target_wallet max_depth)"

subsection \<open>Parents, ancestors and chains of links\<close>

text \<open>
  \<open>is_parent t w p\<close>: the dict records \<open>p\<close> as the parent of \<open>w\<close>. An ancestor is
  a parent, or a parent of an ancestor.
\<close>

definition is_parent :: "transaction_tree \<Rightarrow> string \<Rightarrow> string \<Rightarrow> bool" where
  "is_parent t w p = (\<exists>tx. parent_info t w = Some (p, tx))"

definition ancestor :: "transaction_tree \<Rightarrow> string \<Rightarrow> string \<Rightarrow> bool" where
  "ancestor t w a = (is_parent t)\<^sup>+\<^sup>+ w a"

text \<open>
  A chain of parent links: \<open>links t ws txs\<close> holds when \<open>ws\<close> is a walk along
  \<^verbatim>\<open>parent_info\<close> through observed wallets that ends at the first occurrence of
  the root, and \<open>txs\<close> lists the hashes stored on the way. These are the two
  lists that \<^verbatim>\<open>path_to_root\<close> builds for the first wallet of \<open>ws\<close> when it has
  a frame for every wallet of \<open>ws\<close>.
\<close>

fun links :: "transaction_tree \<Rightarrow> string list \<Rightarrow> string list \<Rightarrow> bool" where
  "links t [w] [] = (w = root_wallet t \<and> w \<in> observed_wallets t)"
| "links t (w # p # ws) (tx # txs) =
     (w \<noteq> root_wallet t \<and> w \<in> observed_wallets t \<and> parent_info t w = Some (p, tx)
      \<and> links t (p # ws) txs)"
| "links t _ _ = False"

text \<open>
  The invariant of the trees the class builds. Every observed wallet starts a
  chain of links to the root that visits no wallet twice; the dict holds a
  parent for exactly the observed wallets other than the root, and every parent
  is observed; the leaves are the observed wallets that are nobody's parent.
\<close>

definition has_path :: "transaction_tree \<Rightarrow> string \<Rightarrow> bool" where
  "has_path t w \<longleftrightarrow> (\<exists>ws txs. links t (w # ws) txs \<and> distinct (w # ws))"

definition tree_inv :: "transaction_tree \<Rightarrow> bool" where
  "tree_inv t \<longleftrightarrow>
     finite (observed_wallets t) \<and>
     root_wallet t \<in> observed_wallets t \<and>
     dom (parent_info t) = observed_wallets t - {root_wallet t} \<and>
     (\<forall>w p tx. parent_info t w = Some (p, tx) \<longrightarrow> p \<in> observed_wallets t) \<and>
     (\<forall>w \<in> observed_wallets t. has_path t w) \<and>
     leaves t = {w \<in> observed_wallets t. \<forall>c. \<not> is_parent t c w}"

subsection \<open>Invariants of the search\<close>

text \<open>
  \<open>within t k w\<close>: the wallet \<open>w\<close> is at most \<open>k\<close> links away from the root.
\<close>

definition within :: "transaction_tree \<Rightarrow> int \<Rightarrow> string \<Rightarrow> bool" where
  "within t k w \<longleftrightarrow> (\<exists>ws txs. links t (w # ws) txs \<and> int (length ws) \<le> k)"

text \<open>
  The invariant of the inner loop while the batch of the entry
  \<open>(wallet, depth)\<close> is processed: no observed wallet is more than \<open>depth + 1\<close>
  links from the root, the dequeued wallet (when observed) at most \<open>depth\<close>;
  the queue is sorted by depth, holds depths \<open>depth\<close> and \<open>depth + 1\<close> only,
  none above the bound, and each of its wallets is the empty string or an
  observed wallet no farther from the root than its entry says.
\<close>

definition batch_inv ::
  "int \<Rightarrow> string \<Rightarrow> int \<Rightarrow> transaction_tree \<Rightarrow> (string \<times> int) list \<Rightarrow> bool" where
  "batch_inv md wallet depth t q \<longleftrightarrow>
     tree_inv t \<and> depth \<le> md \<and>
     (\<forall>x \<in> observed_wallets t. within t (depth + 1) x) \<and>
     (wallet \<in> observed_wallets t \<longrightarrow> within t depth wallet) \<and>
     sorted (map snd q) \<and>
     (\<forall>e \<in> set q. depth \<le> snd e \<and> snd e \<le> depth + 1 \<and> snd e \<le> md
        \<and> (fst e \<in> observed_wallets t \<or> fst e = '''')
        \<and> (fst e \<in> observed_wallets t \<longrightarrow> within t (snd e) (fst e)))"

text \<open>
  The invariant of the outer loop, between two batches.
\<close>

definition queue_inv :: "int \<Rightarrow> transaction_tree \<Rightarrow> (string \<times> int) list \<Rightarrow> bool" where
  "queue_inv md t q \<longleftrightarrow>
     tree_inv t \<and> sorted (map snd q) \<and>
     (\<forall>x \<in> observed_wallets t. within t (md + 1) x) \<and>
     (\<forall>e \<in> set q. snd e \<le> md \<and> snd e \<le> snd (hd q) + 1
        \<and> (fst e \<in> observed_wallets t \<or> fst e = '''')
        \<and> (fst e \<in> observed_wallets t \<longrightarrow> within t (snd e) (fst e))
        \<and> (\<forall>x \<in> observed_wallets t. within t (snd e + 1) x))"

text \<open>
  What the inner loop establishes: the batch invariant when it runs to the end,
  the bound \<open>max_depth + 1\<close> on every observed wallet when it leaves the function.
\<close>

definition result_inv :: "int \<Rightarrow> string \<Rightarrow> int \<Rightarrow> for_result \<Rightarrow> bool" where
  "result_inv md wallet depth r =
     (case r of
        Completed t q \<Rightarrow> batch_inv md wallet depth t q
      | Left out t \<Rightarrow> tree_inv t \<and> (\<forall>x \<in> observed_wallets t. within t (md + 1) x))"

subsection \<open>Example inputs\<close>

text \<open>The tree after \<^verbatim>\<open>transaction_tree('0xa')\<close> and \<^verbatim>\<open>expand('0xa', '0xb', '0x1')\<close>.\<close>

definition two_wallets :: transaction_tree where
  "two_wallets = snd (expand (tree_init ''0xa'') ''0xa'' ''0xb'' ''0x1'')"

text \<open>
  The clients of the scenarios: the two-hop configuration, the direct edge, and
  a client whose answer for the source has an empty receiver address (as a
  contract creation has) and which answers the request for the empty address
  with such a transaction of another sender.
\<close>

definition two_hop_client :: "string \<Rightarrow> etherscan_tx list" where
  "two_hop_client wallet =
     (if wallet = ''0xa'' then [\<lparr>from_address = ''0xA'', to_address = ''0xC'', txhash = ''0x2''\<rparr>]
      else if wallet = ''0xc'' then [\<lparr>from_address = ''0xC'', to_address = ''0xB'', txhash = ''0x3''\<rparr>]
      else [])"

definition direct_edge_client :: "string \<Rightarrow> etherscan_tx list" where
  "direct_edge_client wallet =
     (if wallet = ''0xa'' then [\<lparr>from_address = ''0xA'', to_address = ''0xB'', txhash = ''0x1''\<rparr>]
      else [])"

definition empty_neighbor_client :: "string \<Rightarrow> etherscan_tx list" where
  "empty_neighbor_client wallet =
     (if wallet = ''0xa'' then [\<lparr>from_address = ''0xA'', to_address = '''', txhash = ''0x1''\<rparr>]
      else if wallet = '''' then [\<lparr>from_address = ''0xD'', to_address = '''', txhash = ''0x2''\<rparr>]
      else [])"

text \<open>
  A chain: the root \<^verbatim>\<open>a\<close>, its child \<^verbatim>\<open>aa\<close>, then \<^verbatim>\<open>aaa\<close> as the child of that,
  and so on. \<open>chain_tree k\<close> is the tree after the constructor and \<open>k\<close> calls
  of \<^verbatim>\<open>expand\<close>, each with the last wallet as parent and the next as child.
\<close>

definition wallet_name :: "nat \<Rightarrow> string" where
  "wallet_name k = replicate (Suc k) (CHR ''a'')"

fun chain_tree :: "nat \<Rightarrow> transaction_tree" where
  "chain_tree 0 = tree_init (wallet_name 0)"
| "chain_tree (Suc k) =
     snd (expand (chain_tree k) (wallet_name k) (wallet_name (Suc k)) ''0x1'')"

section \<open>Properties of the tree\<close>

subsection \<open>Chains of links\<close>

lemma expand_None:
  "expand t p c tx = (None, t') \<longleftrightarrow>
     p \<in> observed_wallets t \<and> c \<notin> observed_wallets t \<and>
     t' = t\<lparr>parent_info := (parent_info t)(c \<mapsto> (p, tx)),
            observed_wallets := insert c (observed_wallets t),
            leaves := insert c (leaves t - {p})\<rparr>"
  by (auto simp: expand_def Let_def)

lemma links_nonempty: "links t ws txs \<Longrightarrow> ws \<noteq> []"
  by (induction t ws txs rule: links.induct) auto

lemma links_length: "links t ws txs \<Longrightarrow> length ws = length txs + 1"
  by (induction t ws txs rule: links.induct) auto

lemma links_last: "links t ws txs \<Longrightarrow> last ws = root_wallet t"
  by (induction t ws txs rule: links.induct) auto

lemma links_observed: "links t ws txs \<Longrightarrow> set ws \<subseteq> observed_wallets t"
  by (induction t ws txs rule: links.induct) auto

lemma links_nth:
  "links t ws txs \<Longrightarrow> i < length txs \<Longrightarrow> parent_info t (ws ! i) = Some (ws ! Suc i, txs ! i)"
proof (induction t ws txs arbitrary: i rule: links.induct)
  case (2 t w p ws tx txs)
  then show ?case by (cases i) auto
qed auto

lemma links_path_to_root:
  "links t ws txs \<Longrightarrow>
   path_to_root n t (hd ws) =
     (if length ws \<le> n then (Inr (ws, txs), t) else (Inl RecursionError, t))"
proof (induction t ws txs arbitrary: n rule: links.induct)
  case (1 t w)
  then show ?case by (cases n) auto
next
  case (2 t w p ws tx txs)
  show ?case
  proof (cases n)
    case 0
    then show ?thesis by simp
  next
    case (Suc m)
    from 2 have "path_to_root m t p =
      (if length (p # ws) \<le> m then (Inr (p # ws, txs), t) else (Inl RecursionError, t))"
      by simp
    with 2 Suc show ?thesis by simp
  qed
qed auto

lemma links_expand:
  "links t ws txs \<Longrightarrow> expand t p c tx = (None, t') \<Longrightarrow> links t' ws txs"
proof (induction t ws txs rule: links.induct)
  case (1 t w)
  then show ?case by (auto simp: expand_None)
next
  case (2 t w q ws h txs)
  then show ?case by (auto simp: expand_None)
qed auto

lemma links_unique:
  "links t (w # ws) txs \<Longrightarrow> links t (w # ws') txs' \<Longrightarrow> ws = ws' \<and> txs = txs'"
proof (induction ws arbitrary: w txs ws' txs')
  case Nil
  then show ?case
    by (cases txs; cases ws'; cases txs') auto
next
  case (Cons p ws)
  from Cons.prems(1) obtain h hs where txs: "txs = h # hs"
    and a: "w \<noteq> root_wallet t" "parent_info t w = Some (p, h)" "links t (p # ws) hs"
    by (cases txs) auto
  from Cons.prems(2) a obtain ws2 hs' where ws': "ws' = p # ws2" and txs': "txs' = h # hs'"
    and b: "links t (p # ws2) hs'"
    by (cases ws'; cases txs') auto
  from Cons.IH[OF a(3) b] show ?case by (simp add: txs ws' txs')
qed

subsection \<open>The tree invariant\<close>

lemma tree_inv_init: "tree_inv (tree_init root)"
proof -
  have "links (tree_init root) [root] [] \<and> distinct [root]"
    by (simp add: tree_init_def)
  then have "has_path (tree_init root) root"
    unfolding has_path_def by blast
  then show ?thesis
    by (auto simp: tree_inv_def is_parent_def) (simp_all add: tree_init_def)
qed

lemma tree_inv_expand:
  assumes inv: "tree_inv t" and ex: "expand t p c tx = (None, t')"
  shows "tree_inv t'"
proof -
  from ex have p: "p \<in> observed_wallets t" and c: "c \<notin> observed_wallets t"
    and t': "t' = t\<lparr>parent_info := (parent_info t)(c \<mapsto> (p, tx)),
            observed_wallets := insert c (observed_wallets t),
            leaves := insert c (leaves t - {p})\<rparr>"
    by (simp_all add: expand_None)
  have root: "root_wallet t' = root_wallet t" by (simp add: t')
  have cr: "c \<noteq> root_wallet t" using inv c by (auto simp: tree_inv_def)
  have 1: "finite (observed_wallets t')" using inv by (simp add: t' tree_inv_def)
  have 2: "root_wallet t' \<in> observed_wallets t'" using inv by (simp add: t' tree_inv_def)
  have 3: "dom (parent_info t') = observed_wallets t' - {root_wallet t'}"
    using inv cr by (auto simp: t' tree_inv_def)
  have 4: "\<forall>w q h. parent_info t' w = Some (q, h) \<longrightarrow> q \<in> observed_wallets t'"
    using inv p by (auto simp: t' tree_inv_def)
  have 5: "\<forall>w \<in> observed_wallets t'. has_path t' w"
  proof
    fix w assume w: "w \<in> observed_wallets t'"
    show "has_path t' w"
    proof (cases "w = c")
      case True
      from inv p have "has_path t p" by (simp add: tree_inv_def)
      then obtain ws txs where l: "links t (p # ws) txs" and d: "distinct (p # ws)"
        unfolding has_path_def by blast
      from links_expand[OF l ex] have l': "links t' (p # ws) txs" .
      from links_observed[OF l] c have "c \<notin> set (p # ws)" by auto
      with d have "distinct (c # p # ws)" by simp
      moreover have "links t' (c # p # ws) (tx # txs)"
        using l' cr by (simp add: t')
      ultimately show ?thesis unfolding has_path_def True by blast
    next
      case False
      with w have "w \<in> observed_wallets t" by (simp add: t')
      with inv have "has_path t w" by (simp add: tree_inv_def)
      then obtain ws txs where l: "links t (w # ws) txs" and d: "distinct (w # ws)"
        unfolding has_path_def by blast
      from links_expand[OF l ex] d show ?thesis unfolding has_path_def by blast
    qed
  qed
  have nc: "\<And>x. \<not> is_parent t x c"
    using inv c by (auto simp: tree_inv_def is_parent_def)
  have 6: "leaves t' = {w \<in> observed_wallets t'. \<forall>x. \<not> is_parent t' x w}"
  proof -
    have old: "leaves t = {w \<in> observed_wallets t. \<forall>x. \<not> is_parent t x w}"
      using inv by (simp add: tree_inv_def)
    have L: "leaves t' = insert c (leaves t - {p})"
      and O: "observed_wallets t' = insert c (observed_wallets t)"
      by (simp_all add: t')
    have P: "\<And>x w. is_parent t' x w \<longleftrightarrow> (x = c \<and> w = p) \<or> (x \<noteq> c \<and> is_parent t x w)"
      by (auto simp: t' is_parent_def)
    have nc2: "\<And>w. \<not> is_parent t c w"
      using inv c by (auto simp: tree_inv_def is_parent_def)
    show ?thesis
      unfolding L O P old using nc nc2 p c by (intro set_eqI) (simp, blast)
  qed
  from 1 2 3 4 5 6 show ?thesis unfolding tree_inv_def by blast
qed

lemma reachable_inv: "reachable t \<Longrightarrow> tree_inv t"
  by (induction rule: reachable.induct) (auto intro: tree_inv_init tree_inv_expand)

lemma two_wallets_eq:
  "two_wallets = \<lparr>root_wallet = ''0xa'', parent_info = [''0xb'' \<mapsto> (''0xa'', ''0x1'')],
     observed_wallets = {''0xb'', ''0xa''}, leaves = {''0xb''}\<rparr>"
  by (simp add: two_wallets_def expand_def tree_init_def)

lemma reachable_two_wallets: "reachable two_wallets"
proof -
  have "expand (tree_init ''0xa'') ''0xa'' ''0xb'' ''0x1'' = (None, two_wallets)"
    by (simp add: two_wallets_def expand_def tree_init_def)
  from reachable.step[OF reachable.init this] show ?thesis .
qed

lemma parent_step:
  assumes inv: "tree_inv t" and par: "is_parent t a b" and l: "links t (a # ws) txs"
  shows "\<exists>ws' txs'. links t (b # ws') txs' \<and> length ws' < length ws"
proof -
  from par obtain h where h: "parent_info t a = Some (b, h)" by (auto simp: is_parent_def)
  with inv have "a \<noteq> root_wallet t" by (auto simp: tree_inv_def)
  with l h show ?thesis
    by (cases ws; cases txs) auto
qed

lemma ancestor_step:
  assumes inv: "tree_inv t" and anc: "(is_parent t)\<^sup>+\<^sup>+ a b"
  shows "links t (a # ws) txs \<Longrightarrow> \<exists>ws' txs'. links t (b # ws') txs' \<and> length ws' < length ws"
  using anc
proof (induction arbitrary: ws txs rule: tranclp_induct)
  case (base y)
  then show ?case using parent_step[OF inv] by blast
next
  case (step y z)
  from step.IH[OF step.prems] obtain ws' txs' where
    l: "links t (y # ws') txs'" and len: "length ws' < length ws" by blast
  from parent_step[OF inv step.hyps(2) l] len show ?case
    by (meson less_trans)
qed

lemma no_self_ancestor:
  assumes inv: "tree_inv t"
  shows "\<not> ancestor t w w"
proof
  assume a: "ancestor t w w"
  then have "\<exists>b. is_parent t w b" unfolding ancestor_def
    by (meson tranclpD)
  then have "w \<in> observed_wallets t" using inv by (auto simp: tree_inv_def is_parent_def)
  with inv have "has_path t w" by (simp add: tree_inv_def)
  then obtain ws txs where l: "links t (w # ws) txs" unfolding has_path_def by blast
  from ancestor_step[OF inv a[unfolded ancestor_def] l] obtain ws' txs' where
    l': "links t (w # ws') txs'" and len: "length ws' < length ws" by blast
  from links_unique[OF l l'] len show False by simp
qed

lemma path_length_card:
  assumes inv: "tree_inv t" and l: "links t ws txs" and d: "distinct ws"
  shows "length ws \<le> card (observed_wallets t)"
proof -
  have "length ws = card (set ws)" using d by (simp add: distinct_card)
  also have "\<dots> \<le> card (observed_wallets t)"
    using inv links_observed[OF l] by (simp add: card_mono tree_inv_def)
  finally show ?thesis .
qed

text \<open>\<^verbatim>\<open>path_to_root\<close> only reads: whatever it returns, the tree is as before.\<close>

lemma path_to_root_pure: "snd (path_to_root n t w) = t"
proof (induction n arbitrary: w)
  case 0
  then show ?case by simp
next
  case (Suc n)
  show ?case
  proof (cases "parent_info t w")
    case None
    then show ?thesis by simp
  next
    case (Some pt)
    obtain p tx where pt: "pt = (p, tx)" by (cases pt)
    obtain r s where r: "path_to_root n t p = (r, s)" by (cases "path_to_root n t p")
    with Suc[of p] have "s = t" by simp
    with Some pt r show ?thesis by (cases r) (auto split: prod.splits)
  qed
qed

subsection \<open>The chain\<close>

lemma wallet_name_inj: "wallet_name i = wallet_name j \<longleftrightarrow> i = j"
proof
  assume "wallet_name i = wallet_name j"
  then have "length (wallet_name i) = length (wallet_name j)" by simp
  then show "i = j" by (simp add: wallet_name_def)
qed simp

lemma chain_observed: "observed_wallets (chain_tree k) = wallet_name ` {..k}"
proof (induction k)
  case 0
  then show ?case by (simp add: tree_init_def)
next
  case (Suc k)
  have "wallet_name k \<in> observed_wallets (chain_tree k)" by (simp add: Suc)
  moreover have "wallet_name (Suc k) \<notin> observed_wallets (chain_tree k)"
    by (auto simp: Suc wallet_name_inj)
  ultimately have "observed_wallets (chain_tree (Suc k))
      = insert (wallet_name (Suc k)) (observed_wallets (chain_tree k))"
    by (simp add: expand_def Let_def)
  then show ?case by (simp add: Suc atMost_Suc)
qed

lemma chain_expand:
  "expand (chain_tree k) (wallet_name k) (wallet_name (Suc k)) ''0x1'' = (None, chain_tree (Suc k))"
proof -
  have "wallet_name k \<in> observed_wallets (chain_tree k)" by (simp add: chain_observed)
  moreover have "wallet_name (Suc k) \<notin> observed_wallets (chain_tree k)"
    by (auto simp: chain_observed wallet_name_inj)
  ultimately show ?thesis by (simp add: expand_def Let_def)
qed

lemma chain_reachable: "reachable (chain_tree k)"
proof (induction k)
  case 0
  then show ?case by (simp add: reachable.init)
next
  case (Suc k)
  from reachable.step[OF Suc chain_expand] show ?case .
qed

lemma chain_root: "root_wallet (chain_tree k) = wallet_name 0"
proof (induction k)
  case 0
  then show ?case by (simp add: tree_init_def)
next
  case (Suc k)
  from chain_expand[of k] have "root_wallet (chain_tree (Suc k)) = root_wallet (chain_tree k)"
    by (auto simp: expand_None)
  with Suc show ?case by simp
qed

lemma chain_links:
  "\<exists>ws txs. links (chain_tree k) (wallet_name k # ws) txs \<and> length ws = k"
proof (induction k)
  case 0
  have "links (chain_tree 0) (wallet_name 0 # []) [] \<and> length ([] :: string list) = 0"
    by (simp add: tree_init_def)
  then show ?case by blast
next
  case (Suc k)
  then obtain ws txs where l: "links (chain_tree k) (wallet_name k # ws) txs" and n: "length ws = k"
    by blast
  from links_expand[OF l chain_expand]
  have l': "links (chain_tree (Suc k)) (wallet_name k # ws) txs" .
  from chain_expand[of k] have p: "parent_info (chain_tree (Suc k)) (wallet_name (Suc k))
      = Some (wallet_name k, ''0x1'')"
    by (auto simp: expand_None)
  have o: "wallet_name (Suc k) \<in> observed_wallets (chain_tree (Suc k))"
    unfolding chain_observed by simp
  have r: "wallet_name (Suc k) \<noteq> root_wallet (chain_tree (Suc k))"
    unfolding chain_root by (simp add: wallet_name_inj)
  from l' p o r have "links (chain_tree (Suc k)) (wallet_name (Suc k) # wallet_name k # ws) (''0x1'' # txs)"
    by simp
  moreover have "length (wallet_name k # ws) = Suc k" using n by simp
  ultimately show ?case by blast
qed

lemma chain_too_deep:
  assumes "n \<le> k"
  shows "path_to_root n (chain_tree k) (wallet_name k) = (Inl RecursionError, chain_tree k)"
proof -
  from chain_links[of k] obtain ws txs where
    l: "links (chain_tree k) (wallet_name k # ws) txs" and len: "length ws = k" by blast
  from links_path_to_root[OF l, of n] assms len show ?thesis by simp
qed

lemma chain_card: "card (observed_wallets (chain_tree k)) = Suc k"
proof -
  have "inj_on wallet_name {..k}" by (simp add: inj_on_def wallet_name_inj)
  then show ?thesis by (simp add: chain_observed card_image)
qed

subsection \<open>Claims about the tree\<close>

text \<open>
  Claim C4. The claim is that in every tree built by the constructor and
  successful \<^verbatim>\<open>expand\<close> calls, \<^verbatim>\<open>path_to_root\<close> of an observed wallet returns
  the two lists. It does not on a deep tree: on the chain of 1001 wallets, even
  with all 1000 frames of the default recursion limit free, the call for the
  last wallet raises \<^verbatim>\<open>RecursionError\<close>.
\<close>

theorem deep_chain_counterexample:
  "reachable (chain_tree 1000)
   \<and> wallet_name 1000 \<in> observed_wallets (chain_tree 1000)
   \<and> path_to_root 1000 (chain_tree 1000) (wallet_name 1000)
       = (Inl RecursionError, chain_tree 1000)"
proof -
  have "wallet_name 1000 \<in> observed_wallets (chain_tree 1000)"
    unfolding chain_observed by simp
  with chain_reachable[of 1000] chain_too_deep[of 1000 1000] show ?thesis by simp
qed

text \<open>
  Claim C4, as amended. In a tree built by the constructor and successful
  \<^verbatim>\<open>expand\<close> calls, every observed wallet \<open>w\<close> has two lists \<open>ws\<close> and \<open>txs\<close>,
  with \<open>ws\<close> starting at \<open>w\<close> and ending at the root, one wallet more than
  hashes, and \<open>txs ! i\<close> the hash stored with the link from \<open>ws ! i\<close> to its
  parent \<open>ws ! (i + 1)\<close>, such that \<^verbatim>\<open>path_to_root\<close> of \<open>w\<close> returns \<open>(ws, txs)\<close>
  when the interpreter has a free frame for every wallet of \<open>ws\<close>, and raises
  \<^verbatim>\<open>RecursionError\<close> when it has fewer; for the root it returns \<open>([root], [])\<close>
  whenever one frame is free.
\<close>

theorem path_to_root_contract:
  assumes "reachable t" and "w \<in> observed_wallets t"
  shows "(\<exists>ws txs. ws ! 0 = w \<and> last ws = root_wallet t \<and> length ws = length txs + 1
           \<and> (\<forall>i < length txs. parent_info t (ws ! i) = Some (ws ! (i + 1), txs ! i))
           \<and> (\<forall>frames. path_to_root frames t w =
                 (if length ws \<le> frames then (Inr (ws, txs), t)
                  else (Inl RecursionError, t))))
         \<and> (\<forall>frames. path_to_root (Suc frames) t (root_wallet t)
               = (Inr ([root_wallet t], []), t))"
proof -
  from assms(1) have inv: "tree_inv t" by (rule reachable_inv)
  with assms(2) have "has_path t w" by (simp add: tree_inv_def)
  then obtain ws txs where l: "links t (w # ws) txs" unfolding has_path_def by blast
  have "\<forall>frames. path_to_root frames t w =
      (if length (w # ws) \<le> frames then (Inr (w # ws, txs), t) else (Inl RecursionError, t))"
    using links_path_to_root[OF l] by simp
  moreover have "(w # ws) ! 0 = w" by simp
  moreover note links_last[OF l] links_length[OF l]
  moreover have "\<forall>i < length txs. parent_info t ((w # ws) ! i) = Some ((w # ws) ! (i + 1), txs ! i)"
    using links_nth[OF l] by simp
  ultimately have first: "\<exists>ws txs. ws ! 0 = w \<and> last ws = root_wallet t
           \<and> length ws = length txs + 1
           \<and> (\<forall>i < length txs. parent_info t (ws ! i) = Some (ws ! (i + 1), txs ! i))
           \<and> (\<forall>frames. path_to_root frames t w =
                 (if length ws \<le> frames then (Inr (ws, txs), t)
                  else (Inl RecursionError, t)))"
    by blast
  from inv have "root_wallet t \<in> observed_wallets t" by (simp add: tree_inv_def)
  then have "\<forall>frames. path_to_root (Suc frames) t (root_wallet t)
      = (Inr ([root_wallet t], []), t)"
    by simp
  with first show ?thesis by blast
qed

theorem path_to_root_contract_witness:
  "reachable two_wallets \<and> ''0xb'' \<in> observed_wallets two_wallets
   \<and> path_to_root 1000 two_wallets ''0xb'' = (Inr ([''0xb'', ''0xa''], [''0x1'']), two_wallets)
   \<and> path_to_root 1 two_wallets ''0xb'' = (Inl RecursionError, two_wallets)
   \<and> path_to_root 1000 two_wallets ''0xa'' = (Inr ([''0xa''], []), two_wallets)"
proof -
  have o: "''0xb'' \<in> observed_wallets two_wallets" by (simp add: two_wallets_eq)
  from path_to_root_contract[OF reachable_two_wallets o] obtain ws txs where
    p: "\<forall>frames. path_to_root frames two_wallets ''0xb'' =
          (if length ws \<le> frames then (Inr (ws, txs), two_wallets)
           else (Inl RecursionError, two_wallets))"
    and r: "\<forall>frames. path_to_root (Suc frames) two_wallets (root_wallet two_wallets)
            = (Inr ([root_wallet two_wallets], []), two_wallets)"
    by blast
  have e: "path_to_root (Suc (Suc 0)) two_wallets ''0xb''
      = (Inr ([''0xb'', ''0xa''], [''0x1'']), two_wallets)"
    by (simp add: two_wallets_eq)
  from p have "path_to_root (Suc (Suc 0)) two_wallets ''0xb'' =
      (if length ws \<le> Suc (Suc 0) then (Inr (ws, txs), two_wallets)
       else (Inl RecursionError, two_wallets))" by blast
  with e have w: "ws = [''0xb'', ''0xa'']" "txs = [''0x1'']"
    by (auto split: if_splits)
  from p w have a: "path_to_root 1000 two_wallets ''0xb''
      = (Inr ([''0xb'', ''0xa''], [''0x1'']), two_wallets)" by simp
  from p w have b: "path_to_root 1 two_wallets ''0xb'' = (Inl RecursionError, two_wallets)"
    by simp
  have "root_wallet two_wallets = ''0xa''" by (simp add: two_wallets_eq)
  with r have "path_to_root (Suc 999) two_wallets ''0xa'' = (Inr ([''0xa''], []), two_wallets)"
    by metis
  then have c: "path_to_root 1000 two_wallets ''0xa'' = (Inr ([''0xa''], []), two_wallets)"
    by simp
  from reachable_two_wallets o a b c show ?thesis by blast
qed

text \<open>
  Claim C5. \<^verbatim>\<open>expand\<close> raises \<^verbatim>\<open>AssertionError\<close> exactly when the parent is not
  observed or the child is observed already, and returns normally exactly in the
  other case; it then stores the pair of the parent and the hash under the
  child, adds the child to the observed wallets, takes the parent out of the
  leaves (which changes nothing when it is not among them) and puts the child
  in. In a tree built by the class, a \<^verbatim>\<open>path_to_root\<close> call (one that has a
  frame to run in) raises \<^verbatim>\<open>AssertionError\<close> exactly when the wallet is not
  observed.
\<close>

theorem expand_and_path_to_root_assertions:
  "(fst (expand t p c tx) = Some AssertionError
      \<longleftrightarrow> p \<notin> observed_wallets t \<or> c \<in> observed_wallets t)
   \<and> (fst (expand t p c tx) = None
      \<longleftrightarrow> p \<in> observed_wallets t \<and> c \<notin> observed_wallets t)
   \<and> (p \<in> observed_wallets t \<and> c \<notin> observed_wallets t \<longrightarrow>
        snd (expand t p c tx) =
          t\<lparr>parent_info := (parent_info t)(c \<mapsto> (p, tx)),
            observed_wallets := insert c (observed_wallets t),
            leaves := insert c (leaves t - {p})\<rparr>)
   \<and> (reachable t \<longrightarrow>
        ((\<exists>t'. path_to_root (Suc frames) t w = (Inl AssertionError, t'))
           \<longleftrightarrow> w \<notin> observed_wallets t))"
proof -
  have a: "fst (expand t p c tx) = Some AssertionError
      \<longleftrightarrow> p \<notin> observed_wallets t \<or> c \<in> observed_wallets t"
    by (simp add: expand_def Let_def)
  have b: "fst (expand t p c tx) = None
      \<longleftrightarrow> p \<in> observed_wallets t \<and> c \<notin> observed_wallets t"
    by (simp add: expand_def Let_def)
  have c: "p \<in> observed_wallets t \<and> c \<notin> observed_wallets t \<longrightarrow>
        snd (expand t p c tx) =
          t\<lparr>parent_info := (parent_info t)(c \<mapsto> (p, tx)),
            observed_wallets := insert c (observed_wallets t),
            leaves := insert c (leaves t - {p})\<rparr>"
    by (simp add: expand_def Let_def)
  have d: "(\<exists>t'. path_to_root (Suc frames) t w = (Inl AssertionError, t'))
      \<longleftrightarrow> w \<notin> observed_wallets t"
    if r: "reachable t"
  proof
    assume e: "\<exists>t'. path_to_root (Suc frames) t w = (Inl AssertionError, t')"
    show "w \<notin> observed_wallets t"
    proof
      assume "w \<in> observed_wallets t"
      with reachable_inv[OF r] have "has_path t w" by (simp add: tree_inv_def)
      then obtain ws txs where "links t (w # ws) txs" unfolding has_path_def by blast
      from links_path_to_root[OF this, of "Suc frames"] e show False
        by (auto split: if_splits)
    qed
  next
    assume "w \<notin> observed_wallets t"
    then have "path_to_root (Suc frames) t w = (Inl AssertionError, t)" by simp
    then show "\<exists>t'. path_to_root (Suc frames) t w = (Inl AssertionError, t')" by blast
  qed
  from a b c d show ?thesis by blast
qed

theorem expand_and_path_to_root_assertions_witness:
  "fst (expand two_wallets ''0xc'' ''0xd'' ''0x2'') = Some AssertionError
   \<and> fst (expand two_wallets ''0xa'' ''0xb'' ''0x2'') = Some AssertionError
   \<and> snd (expand two_wallets ''0xb'' ''0xc'' ''0x2'') =
       two_wallets\<lparr>parent_info := (parent_info two_wallets)(''0xc'' \<mapsto> (''0xb'', ''0x2'')),
         observed_wallets := insert ''0xc'' (observed_wallets two_wallets),
         leaves := insert ''0xc'' (leaves two_wallets - {''0xb''})\<rparr>
   \<and> reachable two_wallets
   \<and> (\<exists>t'. path_to_root (Suc 999) two_wallets ''0xc'' = (Inl AssertionError, t'))
   \<and> path_to_root (Suc 999) two_wallets ''0xb'' \<noteq> (Inl AssertionError, two_wallets)"
proof -
  have o: "''0xa'' \<in> observed_wallets two_wallets" "''0xb'' \<in> observed_wallets two_wallets"
    "''0xc'' \<notin> observed_wallets two_wallets" "''0xd'' \<notin> observed_wallets two_wallets"
    by (simp_all add: two_wallets_eq)
  from expand_and_path_to_root_assertions[of two_wallets "''0xc''" "''0xd''" "''0x2''" 999 "''0xc''"] o
  have 1: "fst (expand two_wallets ''0xc'' ''0xd'' ''0x2'') = Some AssertionError"
    and 5: "\<exists>t'. path_to_root (Suc 999) two_wallets ''0xc'' = (Inl AssertionError, t')"
    using reachable_two_wallets by blast+
  from expand_and_path_to_root_assertions[of two_wallets "''0xa''" "''0xb''" "''0x2''" 999 "''0xb''"] o
  have 2: "fst (expand two_wallets ''0xa'' ''0xb'' ''0x2'') = Some AssertionError"
    and 6: "path_to_root (Suc 999) two_wallets ''0xb'' \<noteq> (Inl AssertionError, two_wallets)"
    using reachable_two_wallets by blast+
  from expand_and_path_to_root_assertions[of two_wallets "''0xb''" "''0xc''" "''0x2''" 999 "''0xb''"] o
  have 3: "snd (expand two_wallets ''0xb'' ''0xc'' ''0x2'') =
       two_wallets\<lparr>parent_info := (parent_info two_wallets)(''0xc'' \<mapsto> (''0xb'', ''0x2'')),
         observed_wallets := insert ''0xc'' (observed_wallets two_wallets),
         leaves := insert ''0xc'' (leaves two_wallets - {''0xb''})\<rparr>"
    by blast
  from 1 2 3 5 6 reachable_two_wallets show ?thesis by blast
qed

text \<open>
  Claim C6. In a tree built by the constructor and successful \<^verbatim>\<open>expand\<close> calls,
  the leaves are exactly the observed wallets that no entry of \<^verbatim>\<open>parent_info\<close>
  names as a parent.
\<close>

theorem leaves_consistency:
  assumes "reachable t"
  shows "leaves t = {w \<in> observed_wallets t. \<forall>c tx. parent_info t c \<noteq> Some (w, tx)}"
  using reachable_inv[OF assms] by (simp add: tree_inv_def is_parent_def)

theorem leaves_consistency_witness:
  "reachable two_wallets
   \<and> leaves two_wallets =
       {w \<in> observed_wallets two_wallets. \<forall>c tx. parent_info two_wallets c \<noteq> Some (w, tx)}
   \<and> leaves two_wallets = {''0xb''}"
  using leaves_consistency[OF reachable_two_wallets] reachable_two_wallets
  by (simp add: two_wallets_eq)

text \<open>
  Claim C7. The claim is that in every tree built by the class the walk of
  \<^verbatim>\<open>path_to_root\<close> from an observed wallet reaches the root. It does not on a
  deep tree: on the chain of 2001 wallets, with the 1000 frames of the default
  recursion limit, the walk from the last wallet is cut off by
  \<^verbatim>\<open>RecursionError\<close> before it reaches the root.
\<close>

theorem walk_cut_off_counterexample:
  "reachable (chain_tree 2000)
   \<and> wallet_name 2000 \<in> observed_wallets (chain_tree 2000)
   \<and> card (observed_wallets (chain_tree 2000)) = 2001
   \<and> fst (path_to_root 1000 (chain_tree 2000) (wallet_name 2000)) = Inl RecursionError"
proof -
  have "wallet_name 2000 \<in> observed_wallets (chain_tree 2000)"
    unfolding chain_observed by simp
  with chain_reachable[of 2000] chain_too_deep[of 1000 2000] chain_card[of 2000]
  show ?thesis by simp
qed

text \<open>
  Claim C7, as amended. In a tree built by the constructor and successful
  \<^verbatim>\<open>expand\<close> calls, the chain of parents from an observed wallet \<open>w\<close> reaches
  the root, visits no wallet twice and has at most as many wallets as are
  observed, and \<open>w\<close> is not an ancestor of itself. \<^verbatim>\<open>path_to_root\<close> always comes
  back: it returns that chain when the interpreter has a free frame for every
  wallet of it, which as many frames as there are observed wallets always is,
  and it raises \<^verbatim>\<open>RecursionError\<close> when there are fewer.
\<close>

theorem path_to_root_terminates:
  assumes "reachable t" and "w \<in> observed_wallets t"
  shows "\<exists>ws txs. ws ! 0 = w \<and> last ws = root_wallet t
           \<and> (\<forall>i. Suc i < length ws \<longrightarrow> is_parent t (ws ! i) (ws ! Suc i))
           \<and> distinct ws
           \<and> length ws \<le> card (observed_wallets t)
           \<and> (\<forall>frames. path_to_root frames t w =
                 (if length ws \<le> frames then (Inr (ws, txs), t)
                  else (Inl RecursionError, t)))
           \<and> path_to_root (card (observed_wallets t)) t w = (Inr (ws, txs), t)
           \<and> \<not> ancestor t w w"
proof -
  from assms(1) have inv: "tree_inv t" by (rule reachable_inv)
  with assms(2) have "has_path t w" by (simp add: tree_inv_def)
  then obtain ws txs where l: "links t (w # ws) txs" and d: "distinct (w # ws)"
    unfolding has_path_def by blast
  from path_length_card[OF inv l d] have len: "length (w # ws) \<le> card (observed_wallets t)" .
  have p: "\<forall>frames. path_to_root frames t w =
      (if length (w # ws) \<le> frames then (Inr (w # ws, txs), t) else (Inl RecursionError, t))"
    using links_path_to_root[OF l] by simp
  with len have q: "path_to_root (card (observed_wallets t)) t w = (Inr (w # ws, txs), t)"
    by simp
  have par: "\<forall>i. Suc i < length (w # ws) \<longrightarrow> is_parent t ((w # ws) ! i) ((w # ws) ! Suc i)"
  proof (intro allI impI)
    fix i assume "Suc i < length (w # ws)"
    with links_length[OF l] have "i < length txs" by simp
    from links_nth[OF l this] show "is_parent t ((w # ws) ! i) ((w # ws) ! Suc i)"
      unfolding is_parent_def by blast
  qed
  have h: "(w # ws) ! 0 = w" by simp
  note links_last[OF l] no_self_ancestor[OF inv, of w]
  with h par d len p q show ?thesis by blast
qed

theorem path_to_root_terminates_witness:
  "reachable two_wallets \<and> ''0xb'' \<in> observed_wallets two_wallets
   \<and> path_to_root (card (observed_wallets two_wallets)) two_wallets ''0xb''
       = (Inr ([''0xb'', ''0xa''], [''0x1'']), two_wallets)
   \<and> \<not> ancestor two_wallets ''0xb'' ''0xb''"
proof -
  have o: "''0xb'' \<in> observed_wallets two_wallets" by (simp add: two_wallets_eq)
  from path_to_root_terminates[OF reachable_two_wallets o] obtain ws txs where
    p: "\<forall>frames. path_to_root frames two_wallets ''0xb'' =
          (if length ws \<le> frames then (Inr (ws, txs), two_wallets)
           else (Inl RecursionError, two_wallets))"
    and q: "path_to_root (card (observed_wallets two_wallets)) two_wallets ''0xb''
            = (Inr (ws, txs), two_wallets)"
    and a: "\<not> ancestor two_wallets ''0xb'' ''0xb''"
    by blast
  have e: "path_to_root (Suc (Suc 0)) two_wallets ''0xb''
      = (Inr ([''0xb'', ''0xa''], [''0x1'']), two_wallets)"
    by (simp add: two_wallets_eq)
  from p have "path_to_root (Suc (Suc 0)) two_wallets ''0xb'' =
      (if length ws \<le> Suc (Suc 0) then (Inr (ws, txs), two_wallets)
       else (Inl RecursionError, two_wallets))" by blast
  with e have "ws = [''0xb'', ''0xa'']" "txs = [''0x1'']"
    by (auto split: if_splits)
  with q a o reachable_two_wallets show ?thesis by simp
qed

text \<open>
  Claim C10. An \<^verbatim>\<open>expand\<close> call with an unobserved parent or an observed child,
  and a \<^verbatim>\<open>path_to_root\<close> call with an unobserved wallet, raise
  \<^verbatim>\<open>AssertionError\<close> and leave the tree as it was before the call; and no
  \<^verbatim>\<open>path_to_root\<close> call changes the tree, however it ends.
\<close>

theorem failed_call_leaves_tree_unchanged:
  "(p \<notin> observed_wallets t \<or> c \<in> observed_wallets t \<longrightarrow>
      expand t p c tx = (Some AssertionError, t))
   \<and> (w \<notin> observed_wallets t \<longrightarrow> path_to_root (Suc frames) t w = (Inl AssertionError, t))
   \<and> snd (path_to_root n t w) = t"
  by (simp add: expand_def path_to_root_pure)

theorem failed_call_leaves_tree_unchanged_witness:
  "expand two_wallets ''0xc'' ''0xd'' ''0x2'' = (Some AssertionError, two_wallets)
   \<and> expand two_wallets ''0xa'' ''0xb'' ''0x2'' = (Some AssertionError, two_wallets)
   \<and> path_to_root (Suc 999) two_wallets ''0xc'' = (Inl AssertionError, two_wallets)"
proof -
  have o: "''0xc'' \<notin> observed_wallets two_wallets" "''0xb'' \<in> observed_wallets two_wallets"
    by (simp_all add: two_wallets_eq)
  from failed_call_leaves_tree_unchanged[of "''0xc''" two_wallets "''0xd''" "''0x2''" "''0xc''" 999]
    failed_call_leaves_tree_unchanged[of "''0xa''" two_wallets "''0xb''" "''0x2''" "''0xc''" 999] o
  show ?thesis by blast
qed

section \<open>Properties of the search\<close>

subsection \<open>Evaluating the search\<close>

lemma lower_examples:
  "lower ''0xA'' = ''0xa''" "lower ''0xB'' = ''0xb''" "lower ''0xC'' = ''0xc''" "lower ''0xD'' = ''0xd''"
  "lower ''0xa'' = ''0xa''" "lower ''0xb'' = ''0xb''" "lower ''0xc'' = ''0xc''" "lower ''0xd'' = ''0xd''"
  "lower '''' = ''''"
  by code_simp+

lemmas run_simps = shortest_path_def shortest_path_run_def Let_def lower_examples
  neighbor_address_def expand_def tree_init_def

subsection \<open>One iteration of the inner loop\<close>

lemma for_txs_queue:
  "for_txs frames target md wallet depth txs tree queue = Completed tree' queue' \<Longrightarrow>
   \<exists>new. queue' = queue @ new \<and> (new \<noteq> [] \<longrightarrow> depth < md) \<and> (\<forall>e \<in> set new. snd e = depth + 1)"
proof (induction txs arbitrary: tree queue)
  case Nil
  then show ?case by simp
next
  case (Cons tx txs)
  then show ?case
    by (fastforce simp: Let_def split: if_splits prod.splits option.splits sum.splits)
qed

lemma for_txs_skip:
  assumes "n = lower (neighbor_address tx wallet)" and "n \<in> observed_wallets t \<or> n = ''''"
  shows "for_txs frames target md wallet depth (tx # txs) t q =
     (if n = target then
        (case path_to_root frames t n of
           (Inl e, t2) \<Rightarrow> Left (Raised e) t2
         | (Inr (ws, hs), t2) \<Rightarrow> Left (Returned (Success ws hs)) t2)
      else for_txs frames target md wallet depth txs t
             (if depth < md then q @ [(n, depth + 1)] else q))"
  using assms by (auto simp: Let_def)

lemma for_txs_admit:
  assumes "n = lower (neighbor_address tx wallet)" and "n \<notin> observed_wallets t" and "n \<noteq> ''''"
  shows "for_txs frames target md wallet depth (tx # txs) t q =
     (case expand t wallet n (txhash tx) of
        (Some e, t1) \<Rightarrow> Left (Raised e) t1
      | (None, t1) \<Rightarrow>
          if n = target then
            (case path_to_root frames t1 n of
               (Inl e, t2) \<Rightarrow> Left (Raised e) t2
             | (Inr (ws, hs), t2) \<Rightarrow> Left (Returned (Success ws hs)) t2)
          else for_txs frames target md wallet depth txs t1
                 (if depth < md then q @ [(n, depth + 1)] else q))"
  using assms(2,3) unfolding assms(1) by (simp add: Let_def)

lemma return_path_left:
  "\<exists>out. (case path_to_root frames t n of
             (Inl e, t2) \<Rightarrow> Left (Raised e) t2
           | (Inr (ws, hs), t2) \<Rightarrow> Left (Returned (Success ws hs)) t2) = Left out t"
proof -
  obtain r s where y: "path_to_root frames t n = (r, s)" by (cases "path_to_root frames t n")
  with path_to_root_pure[of frames t n] have "s = t" by simp
  with y show ?thesis by (cases r) (auto split: prod.splits)
qed

lemma for_txs_append:
  "for_txs frames target md wallet depth (xs @ ys) t q =
     (case for_txs frames target md wallet depth xs t q of
        Left out t' \<Rightarrow> Left out t'
      | Completed t' q' \<Rightarrow> for_txs frames target md wallet depth ys t' q')"
proof (induction xs arbitrary: t q)
  case Nil
  then show ?case by simp
next
  case (Cons tx xs)
  define n where "n = lower (neighbor_address tx wallet)"
  show ?case
  proof (cases "n \<notin> observed_wallets t \<and> n \<noteq> ''''")
    case True
    then have new: "n \<notin> observed_wallets t" "n \<noteq> ''''" by simp_all
    show ?thesis
      unfolding append_Cons for_txs_admit[OF n_def new]
      by (simp del: for_txs.simps add: Cons.IH split: prod.splits option.splits sum.splits)
  next
    case False
    then have n: "n \<in> observed_wallets t \<or> n = ''''" by blast
    show ?thesis
      unfolding append_Cons for_txs_skip[OF n_def n]
      by (simp del: for_txs.simps add: Cons.IH split: prod.splits option.splits sum.splits)
  qed
qed

lemma for_txs_keeps:
  "for_txs frames target md wallet depth txs t q = Completed t' q' \<Longrightarrow> x \<in> observed_wallets t \<Longrightarrow>
   x \<in> observed_wallets t' \<and> parent_info t' x = parent_info t x"
proof (induction txs arbitrary: t q)
  case Nil
  then show ?case by simp
next
  case (Cons tx txs)
  define n where "n = lower (neighbor_address tx wallet)"
  show ?case
  proof (cases "n \<notin> observed_wallets t \<and> n \<noteq> ''''")
    case True
    then have new: "n \<notin> observed_wallets t" "n \<noteq> ''''" by simp_all
    note step = for_txs_admit[OF n_def new, of frames target md depth txs q]
    obtain e t1 where ex: "expand t wallet n (txhash tx) = (e, t1)" by (cases "expand t wallet n (txhash tx)")
    with step Cons.prems(1) have e: "e = None" by (cases e) auto
    with ex have k: "x \<in> observed_wallets t1" "parent_info t1 x = parent_info t x"
      using Cons.prems(2) by (auto simp: expand_None)
    from step ex e Cons.prems(1) have
      "for_txs frames target md wallet depth txs t1 (if depth < md then q @ [(n, depth + 1)] else q)
       = Completed t' q'"
      by (auto split: if_splits option.splits prod.splits sum.splits)
    from Cons.IH[OF this k(1)] k(2) show ?thesis by simp
  next
    case False
    then have n: "n \<in> observed_wallets t \<or> n = ''''" by blast
    note step = for_txs_skip[OF n_def n, of frames target md depth txs q]
    from step Cons.prems(1) have
      "for_txs frames target md wallet depth txs t (if depth < md then q @ [(n, depth + 1)] else q)
       = Completed t' q'"
      by (auto split: if_splits option.splits prod.splits sum.splits)
    from Cons.IH[OF this Cons.prems(2)] show ?thesis .
  qed
qed

subsection \<open>The depth invariant\<close>

lemma within_mono: "within t k w \<Longrightarrow> k \<le> k' \<Longrightarrow> within t k' w"
  unfolding within_def by (meson order_trans)

lemma within_expand: "within t k w \<Longrightarrow> expand t p c tx = (None, t') \<Longrightarrow> within t' k w"
  unfolding within_def using links_expand by blast

lemma within_child:
  assumes inv: "tree_inv t" and ex: "expand t p c tx = (None, t')" and w: "within t k p"
  shows "within t' (k + 1) c"
proof -
  from w obtain ws txs where l: "links t (p # ws) txs" and len: "int (length ws) \<le> k"
    unfolding within_def by blast
  from links_expand[OF l ex] have l': "links t' (p # ws) txs" .
  from ex have c: "c \<notin> observed_wallets t" and
    t': "root_wallet t' = root_wallet t" "c \<in> observed_wallets t'" "parent_info t' c = Some (p, tx)"
    by (auto simp: expand_None)
  from inv c have "c \<noteq> root_wallet t" by (auto simp: tree_inv_def)
  with l' t' have "links t' (c # p # ws) (tx # txs)" by simp
  moreover have "int (length (p # ws)) \<le> k + 1" using len by simp
  ultimately show ?thesis unfolding within_def by blast
qed

lemma batch_inv_expand:
  assumes b: "batch_inv md wallet depth t q" and ex: "expand t wallet n h = (None, t')"
    and n: "n \<noteq> ''''"
  shows "batch_inv md wallet depth t' q"
proof -
  from ex have w: "wallet \<in> observed_wallets t" and nn: "n \<notin> observed_wallets t"
    and o: "observed_wallets t' = insert n (observed_wallets t)"
    by (auto simp: expand_None)
  from b have inv: "tree_inv t" by (simp add: batch_inv_def)
  from b w have ww: "within t depth wallet" by (simp add: batch_inv_def)
  from within_child[OF inv ex ww] have nw: "within t' (depth + 1) n" .
  have 1: "tree_inv t'" using tree_inv_expand[OF inv ex] .
  have 2: "\<forall>x \<in> observed_wallets t'. within t' (depth + 1) x"
    using b nw within_expand[OF _ ex] by (auto simp: o batch_inv_def)
  have 3: "wallet \<in> observed_wallets t' \<longrightarrow> within t' depth wallet"
    using within_expand[OF ww ex] by simp
  have 4: "\<forall>e \<in> set q. depth \<le> snd e \<and> snd e \<le> depth + 1 \<and> snd e \<le> md
        \<and> (fst e \<in> observed_wallets t' \<or> fst e = '''')
        \<and> (fst e \<in> observed_wallets t' \<longrightarrow> within t' (snd e) (fst e))"
  proof
    fix e assume e: "e \<in> set q"
    with b have f: "depth \<le> snd e" "snd e \<le> depth + 1" "snd e \<le> md"
      "fst e \<in> observed_wallets t \<or> fst e = ''''"
      "fst e \<in> observed_wallets t \<longrightarrow> within t (snd e) (fst e)"
      by (auto simp: batch_inv_def)
    from f(4) nn n have ne: "fst e \<noteq> n" by auto
    show "depth \<le> snd e \<and> snd e \<le> depth + 1 \<and> snd e \<le> md
        \<and> (fst e \<in> observed_wallets t' \<or> fst e = '''')
        \<and> (fst e \<in> observed_wallets t' \<longrightarrow> within t' (snd e) (fst e))"
      using f ne within_expand[OF _ ex] by (auto simp: o)
  qed
  from b have 5: "depth \<le> md" "sorted (map snd q)" by (simp_all add: batch_inv_def)
  from 1 2 3 4 5 show ?thesis unfolding batch_inv_def by blast
qed

lemma batch_inv_enqueue:
  assumes b: "batch_inv md wallet depth t q" and n: "n \<in> observed_wallets t \<or> n = ''''"
    and d: "depth < md"
  shows "batch_inv md wallet depth t (q @ [(n, depth + 1)])"
proof -
  have s: "sorted (map snd (q @ [(n, depth + 1)]))"
    using b by (auto simp: batch_inv_def sorted_append)
  have "n \<in> observed_wallets t \<longrightarrow> within t (depth + 1) n"
    using b by (simp add: batch_inv_def)
  with b n d s show ?thesis by (auto simp: batch_inv_def)
qed

lemma for_txs_inv:
  "batch_inv md wallet depth t q \<Longrightarrow>
   result_inv md wallet depth (for_txs frames target md wallet depth txs t q)"
proof (induction txs arbitrary: t q)
  case Nil
  then show ?case by (simp add: result_inv_def)
next
  case (Cons tx txs)
  define n where "n = lower (neighbor_address tx wallet)"
  have left: "result_inv md wallet depth (Left out s)"
    if "batch_inv md wallet depth s q" for s out
    using that within_mono[of s "depth + 1" _ "md + 1"]
    by (auto simp: batch_inv_def result_inv_def)
  show ?case
  proof (cases "n \<notin> observed_wallets t \<and> n \<noteq> ''''")
    case True
    then have new: "n \<notin> observed_wallets t" "n \<noteq> ''''" by simp_all
    note step = for_txs_admit[OF n_def new, of frames target md depth txs q]
    show ?thesis
    proof (cases "wallet \<in> observed_wallets t")
      case False
      then have "expand t wallet n (txhash tx) = (Some AssertionError, t)"
        by (simp add: expand_def)
      with step have "for_txs frames target md wallet depth (tx # txs) t q = Left (Raised AssertionError) t"
        by simp
      with left[OF Cons.prems] show ?thesis by simp
    next
      case w: True
      obtain t1 where ex: "expand t wallet n (txhash tx) = (None, t1)"
        using w new by (simp add: expand_def Let_def)
      from batch_inv_expand[OF Cons.prems ex new(2)] have b1: "batch_inv md wallet depth t1 q" .
      have o1: "n \<in> observed_wallets t1" using ex by (auto simp: expand_None)
      show ?thesis
      proof (cases "n = target")
        case True
        with step ex return_path_left[of frames t1 n]
        obtain out where "for_txs frames target md wallet depth (tx # txs) t q = Left out t1"
          by auto
        with left[OF b1] show ?thesis by simp
      next
        case False
        have "for_txs frames target md wallet depth (tx # txs) t q =
              for_txs frames target md wallet depth txs t1
                (if depth < md then q @ [(n, depth + 1)] else q)"
          using step ex False by simp
        moreover have "batch_inv md wallet depth t1 (if depth < md then q @ [(n, depth + 1)] else q)"
          using b1 batch_inv_enqueue[OF b1, of n] o1 by simp
        ultimately show ?thesis using Cons.IH by simp
      qed
    qed
  next
    case False
    then have n: "n \<in> observed_wallets t \<or> n = ''''" by blast
    note step = for_txs_skip[OF n_def n, of frames target md depth txs q]
    show ?thesis
    proof (cases "n = target")
      case True
      with step return_path_left[of frames t n]
      obtain out where "for_txs frames target md wallet depth (tx # txs) t q = Left out t"
        by auto
      with left[OF Cons.prems] show ?thesis by simp
    next
      case nt: False
      have "for_txs frames target md wallet depth (tx # txs) t q =
            for_txs frames target md wallet depth txs t
              (if depth < md then q @ [(n, depth + 1)] else q)"
        using step nt by simp
      moreover have "batch_inv md wallet depth t (if depth < md then q @ [(n, depth + 1)] else q)"
        using Cons.prems batch_inv_enqueue[OF Cons.prems n] by simp
      ultimately show ?thesis using Cons.IH by simp
    qed
  qed
qed

lemma queue_inv_batch:
  assumes "queue_inv md t ((wallet, depth) # q)"
  shows "batch_inv md wallet depth t q"
  using assms unfolding queue_inv_def batch_inv_def by auto

lemma batch_inv_queue:
  assumes b: "batch_inv md wallet depth t q"
  shows "queue_inv md t q"
proof -
  have h: "depth \<le> snd (hd q)" if "q \<noteq> []"
    using b that by (cases q) (auto simp: batch_inv_def)
  have "\<forall>x \<in> observed_wallets t. within t (md + 1) x"
    using b within_mono[of t "depth + 1" _ "md + 1"] by (auto simp: batch_inv_def)
  moreover have "\<forall>e \<in> set q. snd e \<le> snd (hd q) + 1 \<and> (\<forall>x \<in> observed_wallets t. within t (snd e + 1) x)"
  proof
    fix e assume e: "e \<in> set q"
    then have "q \<noteq> []" by auto
    from h[OF this] e b have "snd e \<le> snd (hd q) + 1" by (auto simp: batch_inv_def)
    moreover have "\<forall>x \<in> observed_wallets t. within t (snd e + 1) x"
      using b e within_mono[of t "depth + 1" _ "snd e + 1"] by (auto simp: batch_inv_def)
    ultimately show "snd e \<le> snd (hd q) + 1 \<and> (\<forall>x \<in> observed_wallets t. within t (snd e + 1) x)"
      by blast
  qed
  ultimately show ?thesis using b unfolding queue_inv_def batch_inv_def by blast
qed

lemma bfs_inv:
  "queue_inv md t q \<Longrightarrow> bfs frames client target md t q = (out, t') \<Longrightarrow>
   tree_inv t' \<and> (\<forall>x \<in> observed_wallets t'. within t' (md + 1) x)"
proof (induction frames client target md t q rule: bfs.induct)
  case (1 frames client target md t)
  then show ?case by (simp add: queue_inv_def)
next
  case (2 frames client target md t wallet depth q)
  from for_txs_inv[OF queue_inv_batch[OF "2.prems"(1)]]
  have r: "result_inv md wallet depth (for_txs frames target md wallet depth (client wallet) t q)" .
  show ?case
  proof (cases "for_txs frames target md wallet depth (client wallet) t q")
    case (Left o1 t1)
    with r "2.prems"(2) show ?thesis by (simp add: result_inv_def)
  next
    case (Completed t1 q1)
    with r have "queue_inv md t1 q1" by (simp add: result_inv_def batch_inv_queue)
    from "2.IH"[OF Completed this] "2.prems"(2) Completed show ?thesis by simp
  qed
qed

lemma queue_inv_init: "0 \<le> md \<Longrightarrow> queue_inv md (tree_init s) [(s, 0)]"
proof -
  assume md: "0 \<le> md"
  have "links (tree_init s) (s # []) [] \<and> int (length ([] :: string list)) \<le> 0"
    by (simp add: tree_init_def)
  then have w: "within (tree_init s) 0 s" unfolding within_def by blast
  have o: "observed_wallets (tree_init s) = {s}" by (simp add: tree_init_def)
  show ?thesis
    using md w within_mono[OF w, of "md + 1"] within_mono[OF w, of 1] tree_inv_init[of s]
    by (simp add: queue_inv_def o)
qed

subsection \<open>Claims about the search\<close>

lemma two_hop_eval:
  assumes "client ''0xa'' = [\<lparr>from_address = ''0xA'', to_address = ''0xC'', txhash = ''0x2''\<rparr>]"
    and "client ''0xc'' = [\<lparr>from_address = ''0xC'', to_address = ''0xB'', txhash = ''0x3''\<rparr>]"
  shows "shortest_path_run (Suc (Suc (Suc k))) client ''0xA'' ''0xB'' 1
           = (Returned (Success [''0xb'', ''0xc'', ''0xa''] [''0x3'', ''0x2'']),
              snd (expand (snd (expand (tree_init ''0xa'') ''0xa'' ''0xc'' ''0x2''))
                     ''0xc'' ''0xb'' ''0x3''))"
    and "shortest_path n client ''0xA'' ''0xB'' 0 = Returned NotFound"
  using assms by (simp_all add: run_simps)

lemma direct_edge_eval:
  assumes "client ''0xa'' = [\<lparr>from_address = ''0xA'', to_address = ''0xB'', txhash = ''0x1''\<rparr>]"
  shows "shortest_path (Suc (Suc k)) client ''0xA'' ''0xB'' max_depth
         = Returned (Success [''0xb'', ''0xa''] [''0x1''])"
  using assms by (simp add: run_simps)

lemma two_hop_client_eq:
  "two_hop_client ''0xa'' = [\<lparr>from_address = ''0xA'', to_address = ''0xC'', txhash = ''0x2''\<rparr>]"
  "two_hop_client ''0xc'' = [\<lparr>from_address = ''0xC'', to_address = ''0xB'', txhash = ''0x3''\<rparr>]"
  by (simp_all add: two_hop_client_def)

lemma two_hop_run_1000:
  "shortest_path_run 1000 two_hop_client ''0xA'' ''0xB'' 1
     = (Returned (Success [''0xb'', ''0xc'', ''0xa''] [''0x3'', ''0x2'']),
        snd (expand (snd (expand (tree_init ''0xa'') ''0xa'' ''0xc'' ''0x2''))
               ''0xc'' ''0xb'' ''0x3''))"
proof -
  have "(1000::nat) = Suc (Suc (Suc 997))" by simp
  then show ?thesis using two_hop_eval(1)[OF two_hop_client_eq, of 997] by simp
qed

text \<open>
  Claim C1. The claim is that in the two-hop configuration the search with
  depth bound 1 returns \<^verbatim>\<open>False\<close>. It does not: the wallet \<^verbatim>\<open>0xc\<close> is enqueued
  at depth 1, its transactions are still read, and the target is found.
\<close>

theorem depth_exhaustion_counterexample:
  "shortest_path 1000 two_hop_client ''0xA'' ''0xB'' 1 \<noteq> Returned NotFound"
  by (simp add: shortest_path_def two_hop_run_1000)

text \<open>
  Claim C1, as amended. In the two-hop configuration the search with depth
  bound 1 returns the wallets \<open>[B, C, A]\<close> and the hashes \<open>[0x3, 0x2]\<close>, given
  the three frames that \<^verbatim>\<open>path_to_root\<close> takes for them; it returns \<^verbatim>\<open>False\<close>
  with depth bound 0.
\<close>

theorem two_hop_depths:
  assumes "client ''0xa'' = [\<lparr>from_address = ''0xA'', to_address = ''0xC'', txhash = ''0x2''\<rparr>]"
    and "client ''0xc'' = [\<lparr>from_address = ''0xC'', to_address = ''0xB'', txhash = ''0x3''\<rparr>]"
    and "3 \<le> frames"
  shows "shortest_path frames client ''0xA'' ''0xB'' 1
           = Returned (Success [''0xb'', ''0xc'', ''0xa''] [''0x3'', ''0x2''])
         \<and> shortest_path n client ''0xA'' ''0xB'' 0 = Returned NotFound"
proof -
  from assms(3) obtain k where "frames = Suc (Suc (Suc k))"
    by (metis le_iff_add numeral_3_eq_3 add_Suc)
  with two_hop_eval[OF assms(1,2)] show ?thesis by (simp add: shortest_path_def)
qed

theorem two_hop_depths_witness:
  "two_hop_client ''0xa'' = [\<lparr>from_address = ''0xA'', to_address = ''0xC'', txhash = ''0x2''\<rparr>]
   \<and> two_hop_client ''0xc'' = [\<lparr>from_address = ''0xC'', to_address = ''0xB'', txhash = ''0x3''\<rparr>]
   \<and> (3::nat) \<le> 1000
   \<and> shortest_path 1000 two_hop_client ''0xA'' ''0xB'' 1
       = Returned (Success [''0xb'', ''0xc'', ''0xa''] [''0x3'', ''0x2''])
   \<and> shortest_path 1000 two_hop_client ''0xA'' ''0xB'' 0 = Returned NotFound"
proof -
  have f: "(3::nat) \<le> 1000" by simp
  from two_hop_depths[of two_hop_client 1000 1000] two_hop_client_eq f show ?thesis by simp
qed

text \<open>
  Claim C2. The claim is that of two transactions of one batch that point to
  the same new neighbour, the second is skipped: one \<^verbatim>\<open>expand\<close>, one queue
  entry. The second transaction is not skipped: the test on the observed
  wallets guards only \<^verbatim>\<open>expand\<close>, and the queue receives the neighbour
  twice. Here the source \<^verbatim>\<open>0xa\<close> at depth 0, with depth bound 1 and a target
  \<^verbatim>\<open>0xz\<close>, has two transactions with \<^verbatim>\<open>0xB\<close>.
\<close>

theorem duplicate_neighbor_counterexample:
  "for_txs 1000 ''0xz'' 1 ''0xa'' 0
     [\<lparr>from_address = ''0xA'', to_address = ''0xB'', txhash = ''0x1''\<rparr>,
      \<lparr>from_address = ''0xA'', to_address = ''0xB'', txhash = ''0x2''\<rparr>]
     (tree_init ''0xa'') []
   = Completed two_wallets [(''0xb'', 1), (''0xb'', 1)]
   \<and> for_txs 1000 ''0xz'' 1 ''0xa'' 0
     [\<lparr>from_address = ''0xA'', to_address = ''0xB'', txhash = ''0x1''\<rparr>,
      \<lparr>from_address = ''0xA'', to_address = ''0xB'', txhash = ''0x2''\<rparr>]
     (tree_init ''0xa'') []
   \<noteq> Completed two_wallets [(''0xb'', 1)]"
  by (simp add: run_simps two_wallets_def)

text \<open>
  Claim C2, as amended. Let the batch of an observed wallet contain two
  transactions \<open>tx1\<close> and \<open>tx2\<close> whose neighbour is the same wallet \<open>n\<close>, new
  when \<open>tx1\<close> is reached, not empty and not the target, and let the
  transactions between them run to their end. Then \<^verbatim>\<open>expand\<close> is called for
  \<open>tx1\<close> and succeeds; \<open>tx2\<close> leaves the tree as it finds it, so \<open>n\<close> is admitted
  once and keeps the hash of \<open>tx1\<close>; and each of the two transactions appends
  \<open>(n, depth + 1)\<close> to the queue when \<open>depth < max_depth\<close>, and nothing
  otherwise.
\<close>

theorem duplicate_neighbor_in_batch:
  assumes n1: "lower (neighbor_address tx1 wallet) = n"
    and n2: "lower (neighbor_address tx2 wallet) = n"
    and new: "n \<notin> observed_wallets tree" "n \<noteq> ''''"
    and w: "wallet \<in> observed_wallets tree"
    and nt: "n \<noteq> target_wallet"
    and mid: "for_txs frames target_wallet max_depth wallet depth mid
                (snd (expand tree wallet n (txhash tx1)))
                (queue @ (if depth < max_depth then [(n, depth + 1)] else []))
              = Completed tree2 queue2"
  shows "fst (expand tree wallet n (txhash tx1)) = None
    \<and> for_txs frames target_wallet max_depth wallet depth (tx1 # mid @ tx2 # rest) tree queue
        = for_txs frames target_wallet max_depth wallet depth rest tree2
            (queue2 @ (if depth < max_depth then [(n, depth + 1)] else []))
    \<and> parent_info tree2 n = Some (wallet, txhash tx1)
    \<and> (\<exists>more. queue2 @ (if depth < max_depth then [(n, depth + 1)] else [])
          = queue @ (if depth < max_depth then [(n, depth + 1)] else []) @ more
            @ (if depth < max_depth then [(n, depth + 1)] else []))"
proof -
  define enq where "enq = (if depth < max_depth then [(n, depth + 1)] else [])"
  obtain t1 where ex: "expand tree wallet n (txhash tx1) = (None, t1)"
    using w new by (simp add: expand_def Let_def)
  then have t1: "snd (expand tree wallet n (txhash tx1)) = t1" by simp
  from ex have o1: "n \<in> observed_wallets t1" and p1: "parent_info t1 n = Some (wallet, txhash tx1)"
    by (auto simp: expand_None)
  have q1: "(if depth < max_depth then queue @ [(n, depth + 1)] else queue) = queue @ enq"
    by (simp add: enq_def)
  have first: "for_txs frames target_wallet max_depth wallet depth (tx1 # mid @ tx2 # rest) tree queue
      = for_txs frames target_wallet max_depth wallet depth (mid @ tx2 # rest) t1 (queue @ enq)"
    unfolding for_txs_admit[OF n1[symmetric] new]
    using ex nt q1 by (simp del: for_txs.simps)
  from mid have mid': "for_txs frames target_wallet max_depth wallet depth mid t1 (queue @ enq)
      = Completed tree2 queue2"
    by (simp add: t1 enq_def)
  from for_txs_keeps[OF mid' o1] p1 have o2: "n \<in> observed_wallets tree2"
    and p2: "parent_info tree2 n = Some (wallet, txhash tx1)" by simp_all
  have q2: "(if depth < max_depth then queue2 @ [(n, depth + 1)] else queue2) = queue2 @ enq"
    by (simp add: enq_def)
  have second: "for_txs frames target_wallet max_depth wallet depth (tx2 # rest) tree2 queue2
      = for_txs frames target_wallet max_depth wallet depth rest tree2 (queue2 @ enq)"
    unfolding for_txs_skip[OF n2[symmetric] disjI1[OF o2]]
    using nt q2 by (simp del: for_txs.simps)
  have whole: "for_txs frames target_wallet max_depth wallet depth (tx1 # mid @ tx2 # rest) tree queue
      = for_txs frames target_wallet max_depth wallet depth rest tree2 (queue2 @ enq)"
    unfolding first for_txs_append[of _ _ _ _ _ mid] mid' using second by simp
  from for_txs_queue[OF mid'] obtain more where "queue2 = (queue @ enq) @ more" by blast
  then have "queue2 @ enq = queue @ enq @ more @ enq" by simp
  then have "\<exists>more. queue2 @ enq = queue @ enq @ more @ enq" by blast
  with ex whole p2 show ?thesis unfolding enq_def by simp
qed

theorem duplicate_neighbor_in_batch_witness:
  "lower (neighbor_address \<lparr>from_address = ''0xA'', to_address = ''0xB'', txhash = ''0x1''\<rparr> ''0xa'') = ''0xb''
   \<and> lower (neighbor_address \<lparr>from_address = ''0xA'', to_address = ''0xB'', txhash = ''0x2''\<rparr> ''0xa'') = ''0xb''
   \<and> ''0xb'' \<notin> observed_wallets (tree_init ''0xa'')
   \<and> ''0xa'' \<in> observed_wallets (tree_init ''0xa'')
   \<and> for_txs 1000 ''0xz'' 1 ''0xa'' 0 [] (snd (expand (tree_init ''0xa'') ''0xa'' ''0xb'' ''0x1'')) [(''0xb'', 1)]
       = Completed two_wallets [(''0xb'', 1)]
   \<and> fst (expand (tree_init ''0xa'') ''0xa'' ''0xb'' ''0x1'') = None
   \<and> for_txs 1000 ''0xz'' 1 ''0xa'' 0
       [\<lparr>from_address = ''0xA'', to_address = ''0xB'', txhash = ''0x1''\<rparr>,
        \<lparr>from_address = ''0xA'', to_address = ''0xB'', txhash = ''0x2''\<rparr>]
       (tree_init ''0xa'') []
      = Completed two_wallets [(''0xb'', 1), (''0xb'', 1)]
   \<and> parent_info two_wallets ''0xb'' = Some (''0xa'', ''0x1'')"
proof -
  let ?tx1 = "\<lparr>from_address = ''0xA'', to_address = ''0xB'', txhash = ''0x1''\<rparr>"
  let ?tx2 = "\<lparr>from_address = ''0xA'', to_address = ''0xB'', txhash = ''0x2''\<rparr>"
  have n1: "lower (neighbor_address ?tx1 ''0xa'') = ''0xb''"
    and n2: "lower (neighbor_address ?tx2 ''0xa'') = ''0xb''"
    by (simp_all add: neighbor_address_def lower_examples)
  have new: "''0xb'' \<notin> observed_wallets (tree_init ''0xa'')" "''0xb'' \<noteq> ''''"
    and w: "''0xa'' \<in> observed_wallets (tree_init ''0xa'')" and nt: "''0xb'' \<noteq> ''0xz''"
    by (simp_all add: tree_init_def)
  have mid: "for_txs 1000 ''0xz'' 1 ''0xa'' 0 []
       (snd (expand (tree_init ''0xa'') ''0xa'' ''0xb'' (txhash ?tx1)))
       ([] @ (if (0::int) < 1 then [(''0xb'', 0 + 1)] else []))
     = Completed two_wallets [(''0xb'', 1)]"
    by (simp add: two_wallets_def)
  from duplicate_neighbor_in_batch[OF n1 n2 new w nt mid, of "[]"] n1 n2 new w mid
  show ?thesis by simp
qed

text \<open>
  Claim C3. A transaction whose neighbour is the empty string is not skipped
  entirely: the empty string is not added to the tree, but it is appended to
  the queue. Here the source's only transaction has an empty receiver; the
  batch ends with \<open>('', 1)\<close> in the queue, and when the search later reads
  the transactions of the empty address, \<^verbatim>\<open>expand\<close> is called with the empty
  string as parent and its first assertion fails.
\<close>

theorem empty_neighbor_is_enqueued:
  "for_txs frames ''0xb'' 1 ''0xa'' 0 (empty_neighbor_client ''0xa'') (tree_init ''0xa'') []
     = Completed (tree_init ''0xa'') [('''', 1)]
   \<and> shortest_path frames empty_neighbor_client ''0xA'' ''0xB'' 1 = Raised AssertionError"
  by (simp add: run_simps empty_neighbor_client_def)

text \<open>
  Claim C8. When a search with a depth bound \<open>max_depth \<ge> 0\<close> ends, however it
  ends, every wallet \<open>w\<close> of its tree (the root and every wallet admitted during
  the run) has a chain of parents \<open>ws\<close> to the root whose number of wallets,
  less one, is at most \<open>max_depth + 1\<close>; this chain is the list of wallets that
  \<^verbatim>\<open>path_to_root\<close> of \<open>w\<close> returns whenever it has the frames to return.
\<close>

theorem path_length_bound:
  assumes "0 \<le> max_depth"
    and "shortest_path_run frames client source_wallet target_wallet max_depth = (out, tree)"
    and "w \<in> observed_wallets tree"
  shows "\<exists>ws txs. links tree ws txs \<and> ws ! 0 = w
           \<and> int (length ws) - 1 \<le> max_depth + 1
           \<and> (\<forall>n. path_to_root n tree w =
                 (if length ws \<le> n then (Inr (ws, txs), tree)
                  else (Inl RecursionError, tree)))"
proof -
  from assms(2) have "bfs frames client (lower target_wallet) max_depth
      (tree_init (lower source_wallet)) [(lower source_wallet, 0)] = (out, tree)"
    by (simp add: shortest_path_run_def Let_def)
  from bfs_inv[OF queue_inv_init[OF assms(1)] this] assms(3)
  have "within tree (max_depth + 1) w" by blast
  then obtain ws txs where l: "links tree (w # ws) txs" and len: "int (length ws) \<le> max_depth + 1"
    unfolding within_def by blast
  have "\<forall>n. path_to_root n tree w =
      (if length (w # ws) \<le> n then (Inr (w # ws, txs), tree) else (Inl RecursionError, tree))"
    using links_path_to_root[OF l] by simp
  moreover have "int (length (w # ws)) - 1 \<le> max_depth + 1" using len by simp
  moreover have "(w # ws) ! 0 = w" by simp
  ultimately show ?thesis using l by blast
qed

theorem path_length_bound_witness:
  "(0::int) \<le> 1
   \<and> ''0xb'' \<in> observed_wallets (snd (shortest_path_run 1000 two_hop_client ''0xA'' ''0xB'' 1))
   \<and> (\<exists>ws txs. ws ! 0 = ''0xb'' \<and> int (length ws) - 1 \<le> 1 + 1
        \<and> path_to_root 1000 (snd (shortest_path_run 1000 two_hop_client ''0xA'' ''0xB'' 1)) ''0xb''
          = (Inr (ws, txs), snd (shortest_path_run 1000 two_hop_client ''0xA'' ''0xB'' 1)))"
proof -
  let ?t = "snd (shortest_path_run 1000 two_hop_client ''0xA'' ''0xB'' 1)"
  have z: "(0::int) \<le> 1" by simp
  have r: "shortest_path_run 1000 two_hop_client ''0xA'' ''0xB'' 1
    = (fst (shortest_path_run 1000 two_hop_client ''0xA'' ''0xB'' 1), ?t)" by simp
  have o: "''0xb'' \<in> observed_wallets ?t"
    by (simp add: two_hop_run_1000 expand_def tree_init_def)
  from path_length_bound[OF z r o] obtain ws txs where
    h: "ws ! 0 = ''0xb''" and b: "int (length ws) - 1 \<le> 1 + 1"
    and p: "\<forall>n. path_to_root n ?t ''0xb'' =
          (if length ws \<le> n then (Inr (ws, txs), ?t) else (Inl RecursionError, ?t))"
    by blast
  from b have "length ws \<le> 1000" by simp
  with p have "path_to_root 1000 ?t ''0xb'' = (Inr (ws, txs), ?t)" by simp
  with z o h b show ?thesis by blast
qed

text \<open>
  The bound on \<open>max_depth\<close> is needed: the batch of the source is read
  whatever the bound, so with a bound of \<open>-1\<close> the wallet \<^verbatim>\<open>0xc\<close> of the
  two-hop configuration is still admitted, one link from the root.
\<close>

lemma negative_bound_example:
  "''0xc'' \<in> observed_wallets (snd (shortest_path_run frames two_hop_client ''0xA'' ''0xB'' (- 1)))
   \<and> path_to_root (Suc (Suc k)) (snd (shortest_path_run frames two_hop_client ''0xA'' ''0xB'' (- 1)))
        ''0xc''
       = (Inr ([''0xc'', ''0xa''], [''0x2'']),
               snd (shortest_path_run frames two_hop_client ''0xA'' ''0xB'' (- 1)))"
  by (simp add: run_simps two_hop_client_def)

text \<open>
  Claim C9. With source \<^verbatim>\<open>0xA\<close>, target \<^verbatim>\<open>0xB\<close>, a depth bound of at least 1
  and a client that answers the request for the source with the single
  transaction from \<^verbatim>\<open>0xA\<close> to \<^verbatim>\<open>0xB\<close> with hash \<^verbatim>\<open>0x1\<close>, the search
  returns the wallets \<open>[B, A]\<close> and the hashes \<open>[0x1]\<close>, the addresses in
  lower case as the search stores them. \<^verbatim>\<open>path_to_root\<close> takes two frames for
  this path, which the interpreter is taken to have free.
\<close>

theorem direct_edge:
  assumes "client ''0xa'' = [\<lparr>from_address = ''0xA'', to_address = ''0xB'', txhash = ''0x1''\<rparr>]"
    and "1 \<le> max_depth"
    and "2 \<le> frames"
  shows "shortest_path frames client ''0xA'' ''0xB'' max_depth
         = Returned (Success [''0xb'', ''0xa''] [''0x1''])"
proof -
  from assms(3) obtain k where "frames = Suc (Suc k)"
    by (metis add_2_eq_Suc le_iff_add)
  with direct_edge_eval[of client] assms(1) show ?thesis by simp
qed

theorem direct_edge_witness:
  "direct_edge_client ''0xa'' = [\<lparr>from_address = ''0xA'', to_address = ''0xB'', txhash = ''0x1''\<rparr>]
   \<and> (1::int) \<le> 3 \<and> (2::nat) \<le> 1000
   \<and> shortest_path 1000 direct_edge_client ''0xA'' ''0xB'' 3
       = Returned (Success [''0xb'', ''0xa''] [''0x1''])"
proof -
  have c: "direct_edge_client ''0xa'' = [\<lparr>from_address = ''0xA'', to_address = ''0xB'', txhash = ''0x1''\<rparr>]"
    by (simp add: direct_edge_client_def)
  have d: "(1::int) \<le> 3" and f: "(2::nat) \<le> 1000" by simp_all
  from direct_edge[of direct_edge_client 3 1000] c d f show ?thesis by simp
qed

end
